theory Spec2Isabelle
  imports Main
begin

section \<open>The TicTacToe class of resources/js/main.js\<close>

text \<open>
  A cell of the board is a JavaScript string: the empty string is an empty cell, any other
  string is a mark. The board is the array \<open>this.board\<close>, modelled as a list of strings.
  The two player tokens are set once by the constructor and never assigned again.
\<close>

type_synonym cell = string
type_synonym board = "cell list"

definition humanPlayer :: string where
  "humanPlayer = ''O''"

definition computerPlayer :: string where
  "computerPlayer = ''X''"

definition MIN_val :: int where "MIN_val = - 1000"
definition MAX_val :: int where "MAX_val = 1000"
definition WIN_SCORE :: int where "WIN_SCORE = 10"
definition TIE_SCORE :: int where "TIE_SCORE = 0"
definition LOSE_SCORE :: int where "LOSE_SCORE = - 10"

text \<open>\<open>MIN_val\<close> and \<open>MAX_val\<close> are the static fields MIN and MAX.\<close>

text \<open>The instance state: the board and the \<open>gameOver\<close> flag.\<close>

record game =
  board :: board
  gameOver :: bool

text \<open>\<open>initialize\<close> (and \<open>reset\<close>, which only calls it): nine empty cells, flag cleared.\<close>

definition initialize :: game where
  "initialize = \<lparr>board = ['''', '''', '''', '''', '''', '''', '''', '''', ''''], gameOver = False\<rparr>"

text \<open>
  \<open>getAvailableSlots\<close>: the loop pushes every index \<open>i\<close> with \<open>!board[i]\<close>, in increasing
  order of \<open>i\<close>. For a string, \<open>!s\<close> holds exactly for the empty string.
\<close>

definition getAvailableSlots :: "board \<Rightarrow> nat list" where
  "getAvailableSlots b = filter (\<lambda>i. b ! i = '''') [0..<length b]"

text \<open>
  \<open>isValidSlot\<close>: \<open>slot >= 0 && slot < this.board.length && this.board[slot] === ""\<close>.
  The slot comes from the caller and may be any integer.
\<close>

definition isValidSlot :: "game \<Rightarrow> int \<Rightarrow> bool" where
  "isValidSlot g slot = (0 \<le> slot \<and> slot < int (length (board g)) \<and> board g ! nat slot = '''')"

text \<open>
  The object returned by \<open>isGameOver\<close>: its \<open>result\<close> field is one of the three constants
  WIN, TIE, CONTINUE; a WIN carries the player and the three slots of the line, a CONTINUE
  carries the available slots. The player of a WIN is read from the board, and a read
  past the end of a JavaScript array yields \<open>undefined\<close>, which is \<open>None\<close> here.
\<close>

datatype game_result =
    WIN "cell option" "nat list"
  | TIE
  | CONTINUE "nat list"

definition cellAt :: "board \<Rightarrow> nat \<Rightarrow> cell option" where
  "cellAt b i = (if i < length b then Some (b ! i) else None)"

text \<open>The local function \<open>won\<close>: every element equals the first, and the first is not \<open>""\<close>.\<close>

fun won :: "cell option list \<Rightarrow> bool" where
  "won [] = True"
| "won (x # xs) = (list_all (\<lambda>v. v = x) (x # xs) \<and> x \<noteq> Some '''')"

text \<open>
  The three loops of \<open>isGameOver\<close> visit, in this order, the rows starting at
  \<open>i = 0, 3, 6, ...\<close> while \<open>i < board.length\<close>, the columns \<open>i = 0, 1, 2\<close> and the two
  diagonals; the first line that \<open>won\<close> accepts is returned.
\<close>

definition rowLines :: "board \<Rightarrow> nat list list" where
  "rowLines b = map (\<lambda>k. [3 * k, 3 * k + 1, 3 * k + 2]) [0..<(length b + 2) div 3]"

definition colLines :: "nat list list" where
  "colLines = map (\<lambda>i. [i, i + 3, i + 6]) [0..<3]"

definition diagLines :: "nat list list" where
  "diagLines = [[0, 4, 8], [2, 4, 6]]"

definition lineWon :: "board \<Rightarrow> nat list \<Rightarrow> bool" where
  "lineWon b l = won (map (cellAt b) l)"

definition isGameOver :: "board \<Rightarrow> game_result" where
  "isGameOver b =
     (case find (lineWon b) (rowLines b @ colLines @ diagLines) of
        Some l \<Rightarrow> WIN (cellAt b (hd l)) l
      | None \<Rightarrow>
          (let availableSlots = getAvailableSlots b
           in if length availableSlots = 0 then TIE else CONTINUE availableSlots))"

text \<open>
  \<open>play\<close> throws \<open>Error("Game over! Please reset the board")\<close> when the flag is set and
  \<open>Error("<slot> is not a valid slot.")\<close> when \<open>isValidSlot\<close> fails; these are the spec's
  InvalidStateError and InvalidMoveError. Otherwise it writes the token, classifies the
  board and sets the flag unless the result is CONTINUE. The model returns the instance
  state after the call together with the outcome, the thrown error or the returned object.
\<close>

datatype error = InvalidStateError | InvalidMoveError int

fun isContinue :: "game_result \<Rightarrow> bool" where
  "isContinue (CONTINUE _) = True"
| "isContinue _ = False"

definition play :: "game \<Rightarrow> int \<Rightarrow> string \<Rightarrow> game \<times> (error + game_result)" where
  "play g slot player =
     (if gameOver g then (g, Inl InvalidStateError)
      else if \<not> isValidSlot g slot then (g, Inl (InvalidMoveError slot))
      else
        (let g1 = g\<lparr>board := (board g)[nat slot := player]\<rparr>;
             result = isGameOver (board g1);
             g2 = (if \<not> isContinue result then g1\<lparr>gameOver := True\<rparr> else g1)
         in (g2, Inr result)))"

text \<open>
  The object returned by \<open>minimax\<close>: \<open>{"score": s}\<close> at a finished board,
  \<open>{"slot": i, "score": s}\<close> after a move was recorded, and \<open>{}\<close> when none was.
\<close>

record move =
  slot :: "nat option"
  score :: "int option"

text \<open>
  \<open>minimax\<close> writes into the array it is given and resets the cell after each recursive
  call, so the model passes the array through: every call returns the array as it leaves
  it, and the loop goes on with that array. The loop over \<open>game_result["slots"]\<close> is
  \<open>minimax_loop\<close>; its arguments are the loop's variables. The slots come from
  \<open>getAvailableSlots\<close>, so each write is inside the array. The parameter \<open>depth\<close> is
  only counted and never read; it is left out. A comparison with an absent score is
  false in JavaScript, so such a result never replaces the best move.
\<close>

function minimax :: "board \<Rightarrow> string \<Rightarrow> int \<Rightarrow> int \<Rightarrow> board \<times> move"
  and minimax_loop :: "nat list \<Rightarrow> board \<Rightarrow> string \<Rightarrow> int \<Rightarrow> int \<Rightarrow> move \<Rightarrow> int \<Rightarrow> board \<times> move"
where
  "minimax b player alpha beta =
     (case isGameOver b of
        WIN w line \<Rightarrow>
          (b, \<lparr>slot = None, score = Some (if w = Some computerPlayer then WIN_SCORE else LOSE_SCORE)\<rparr>)
      | TIE \<Rightarrow> (b, \<lparr>slot = None, score = Some TIE_SCORE\<rparr>)
      | CONTINUE slots \<Rightarrow>
          minimax_loop slots b player alpha beta \<lparr>slot = None, score = None\<rparr>
            (if player = computerPlayer then MIN_val else MAX_val))"
| "minimax_loop [] b player alpha beta bestMove bestScore = (b, bestMove)"
| "minimax_loop (s # rest) b player alpha beta bestMove bestScore =
     (if player = computerPlayer then
        (case minimax (b[s := player]) humanPlayer alpha beta of (b2, result) \<Rightarrow>
           (case (case score result of
                    Some r \<Rightarrow> if r > bestScore then (r, \<lparr>slot = Some s, score = Some r\<rparr>)
                              else (bestScore, bestMove)
                  | None \<Rightarrow> (bestScore, bestMove)) of (bestScore1, bestMove1) \<Rightarrow>
              (let alpha1 = max alpha bestScore1;
                   b3 = b2[s := '''']
               in if beta \<le> alpha1 then (b3, bestMove1)
                  else minimax_loop rest b3 player alpha1 beta bestMove1 bestScore1)))
      else
        (case minimax (b[s := player]) computerPlayer alpha beta of (b2, result) \<Rightarrow>
           (case (case score result of
                    Some r \<Rightarrow> if r < bestScore then (r, \<lparr>slot = Some s, score = Some r\<rparr>)
                              else (bestScore, bestMove)
                  | None \<Rightarrow> (bestScore, bestMove)) of (bestScore1, bestMove1) \<Rightarrow>
              (let beta1 = min beta bestScore1;
                   b3 = b2[s := '''']
               in if beta1 \<le> alpha then (b3, bestMove1)
                  else minimax_loop rest b3 player alpha beta1 bestMove1 bestScore1))))"
  by pat_completeness auto


subsection \<open>Termination of the search\<close>

text \<open>
  The search ends because every recursive call of \<open>minimax\<close> is on a board with one
  more mark. Inside the loop this rests on the array being handed back as it was
  received, which is proved first, for the calls that return.
\<close>

definition emptyCells :: "board \<Rightarrow> nat set" where
  "emptyCells b = {i. i < length b \<and> b ! i = ''''}"

definition nodeMeasure :: "board \<Rightarrow> string \<Rightarrow> nat" where
  "nodeMeasure b p = 2 * card (emptyCells b) + 2 + (if p = '''' then 2 else 0)"

definition loopMeasure :: "nat list \<Rightarrow> board \<Rightarrow> string \<Rightarrow> nat" where
  "loopMeasure ss b p = 2 * card (emptyCells b \<union> set ss) + 1 + (if p = '''' then 2 else 0)"

definition searchMeasure ::
  "(board \<times> string \<times> int \<times> int) + (nat list \<times> board \<times> string \<times> int \<times> int \<times> move \<times> int)
     \<Rightarrow> nat \<times> nat" where
  "searchMeasure x =
     (case x of
        Inl (b, p, al, be) \<Rightarrow> (nodeMeasure b p, 0)
      | Inr (ss, b, p, al, be, bm, bs) \<Rightarrow> (loopMeasure ss b p, length ss))"

lemma finite_emptyCells [simp]: "finite (emptyCells b)"
  by (simp add: emptyCells_def)

lemma set_getAvailableSlots: "set (getAvailableSlots b) = emptyCells b"
  by (auto simp: getAvailableSlots_def emptyCells_def)

lemma isGameOver_CONTINUE: "isGameOver b = CONTINUE ss \<Longrightarrow> ss = getAvailableSlots b"
  by (auto simp: isGameOver_def Let_def split: option.splits if_splits)

lemma isGameOver_CONTINUE_slots: "isGameOver b = CONTINUE ss \<Longrightarrow> set ss = emptyCells b"
  using isGameOver_CONTINUE [of b ss] by (simp add: set_getAvailableSlots)

lemma nth_update_cases: "i < length b \<Longrightarrow> b[s := p] ! i = (if i = s then p else b ! i)"
  by auto

lemma emptyCells_mark:
  "p \<noteq> '''' \<Longrightarrow> emptyCells (b[s := p]) \<subseteq> (emptyCells b \<union> set (s # rest)) - {s}"
  by (auto simp: emptyCells_def nth_update_cases split: if_splits)

lemma emptyCells_update: "emptyCells (b[s := p]) \<subseteq> emptyCells b \<union> set (s # rest)"
  by (auto simp: emptyCells_def nth_update_cases split: if_splits)

lemma card_mark:
  assumes "p \<noteq> ''''"
  shows "card (emptyCells (b[s := p])) < card (emptyCells b \<union> set (s # rest))"
proof -
  have "card (emptyCells (b[s := p])) \<le> card ((emptyCells b \<union> set (s # rest)) - {s})"
    using emptyCells_mark [OF assms, of b s rest] by (intro card_mono) auto
  also have "\<dots> < card (emptyCells b \<union> set (s # rest))"
    by (intro card_Diff1_less) auto
  finally show ?thesis .
qed

lemma card_update:
  "card (emptyCells (b[s := p])) \<le> card (emptyCells b \<union> set (s # rest))"
  using emptyCells_update [of b s p rest] by (intro card_mono) auto

lemma players_nonempty: "humanPlayer \<noteq> ''''" "computerPlayer \<noteq> ''''"
  by (simp_all add: humanPlayer_def computerPlayer_def)

lemma measure_child:
  "q \<noteq> '''' \<Longrightarrow> nodeMeasure (b[s := p]) q < loopMeasure (s # rest) b p"
  using card_mark [of p b s rest] card_update [of b s p rest]
  by (auto simp: nodeMeasure_def loopMeasure_def)

lemma measure_rest:
  "loopMeasure rest b p < loopMeasure (s # rest) b p
   \<or> loopMeasure rest b p = loopMeasure (s # rest) b p"
proof -
  have "card (emptyCells b \<union> set rest) \<le> card (emptyCells b \<union> set (s # rest))"
    by (intro card_mono) auto
  then show ?thesis by (auto simp: loopMeasure_def)
qed

lemma measure_node:
  "isGameOver b = CONTINUE ss \<Longrightarrow> loopMeasure ss b p < nodeMeasure b p"
  by (simp add: isGameOver_CONTINUE_slots loopMeasure_def nodeMeasure_def)

lemma minimax_dom_board:
  "minimax_minimax_loop_dom (Inl (b, p, al, be)) \<Longrightarrow> fst (minimax b p al be) = b"
  "minimax_minimax_loop_dom (Inr (ss, b, p, al, be, bm, bs)) \<Longrightarrow>
     set ss \<subseteq> emptyCells b \<Longrightarrow> fst (minimax_loop ss b p al be bm bs) = b"
proof (induction rule: minimax_minimax_loop.pinduct)
  case (1 b player alpha beta)
  show ?case
  proof (cases "isGameOver b")
    case (CONTINUE ss)
    have "set ss \<subseteq> emptyCells b"
      using isGameOver_CONTINUE_slots [OF CONTINUE] by simp
    with "1.IH" [OF CONTINUE] "1.hyps" CONTINUE show ?thesis
      by (simp add: minimax.psimps)
  next
    case (WIN w line)
    with "1.hyps" show ?thesis by (simp add: minimax.psimps)
  next
    case TIE
    with "1.hyps" show ?thesis by (simp add: minimax.psimps)
  qed
next
  case (2 b player alpha beta bestMove bestScore)
  then show ?case by (simp add: minimax_loop.psimps)
next
  case (3 s rest b player alpha beta bestMove bestScore)
  have s: "s < length b" "b ! s = ''''" and rest: "set rest \<subseteq> emptyCells b"
    using "3.prems" by (auto simp: emptyCells_def)
  have restore: "b[s := q, s := ''''] = b" for q
    using s by (simp add: list_update_same_conv)
  show ?case
  proof (cases "player = computerPlayer")
    case True
    obtain b2 r where m: "minimax (b[s := player]) humanPlayer alpha beta = (b2, r)"
      by (cases "minimax (b[s := player]) humanPlayer alpha beta")
    have b2: "b2 = b[s := player]" using "3.IH"(1) [OF True] m by simp
    show ?thesis
      using "3.hyps" True m b2 restore rest "3.IH"(2) [OF True m [symmetric]]
      by (auto simp: minimax_loop.psimps Let_def split: prod.splits option.splits if_splits)
  next
    case False
    obtain b2 r where m: "minimax (b[s := player]) computerPlayer alpha beta = (b2, r)"
      by (cases "minimax (b[s := player]) computerPlayer alpha beta")
    have b2: "b2 = b[s := player]" using "3.IH"(3) [OF False] m by simp
    show ?thesis
      using "3.hyps" False m b2 restore rest "3.IH"(4) [OF False m [symmetric]]
      by (auto simp: minimax_loop.psimps Let_def split: prod.splits option.splits if_splits)
  qed
qed

lemma measure_reset:
  "loopMeasure rest (b[s := p, s := '''']) p < loopMeasure (s # rest) b p
   \<or> loopMeasure rest (b[s := p, s := '''']) p = loopMeasure (s # rest) b p"
proof -
  have "card (emptyCells (b[s := p, s := '''']) \<union> set rest) \<le> card (emptyCells b \<union> set (s # rest))"
    by (intro card_mono) (auto simp: emptyCells_def nth_update_cases split: if_splits)
  then show ?thesis by (auto simp: loopMeasure_def)
qed

termination minimax
proof (relation "inv_image (less_than <*lex*> less_than) searchMeasure", goal_cases)
  case 1
  show ?case by (intro wf_inv_image wf_lex_prod wf_less_than)
next
  case (2 b player alpha beta ss)
  then show ?case
    by (simp add: searchMeasure_def measure_node)
next
  case (3 s rest b player alpha beta bestMove bestScore)
  show ?case
    by (simp add: searchMeasure_def measure_child players_nonempty)
next
  case (4 s rest b player alpha beta bestMove bestScore x y xa ya xb xc)
  have "x = b[s := player]"
    using minimax_dom_board(1) [OF 4(7)] 4(2) by (metis fst_conv)
  then show ?case
    using 4 measure_reset [of rest b s player] by (auto simp: searchMeasure_def)
next
  case (5 s rest b player alpha beta bestMove bestScore)
  show ?case
    by (simp add: searchMeasure_def measure_child players_nonempty)
next
  case (6 s rest b player alpha beta bestMove bestScore x y xa ya xb xc)
  have "x = b[s := player]"
    using minimax_dom_board(1) [OF 6(7)] 6(2) by (metis fst_conv)
  then show ?case
    using 6 measure_reset [of rest b s player] by (auto simp: searchMeasure_def)
qed

text \<open>
  \<open>getNextBestSlot\<close> runs \<open>minimax\<close> on \<open>this.board.slice()\<close>, a fresh copy of the
  board, for the computer player with the window \<open>(MIN, MAX)\<close>, and returns the \<open>slot\<close>
  field of the result (absent when the result has none). The writes of the search go to
  the copy, so the instance is returned as it was.
\<close>

definition getNextBestSlot :: "game \<Rightarrow> game \<times> nat option" where
  "getNextBestSlot g =
     (let b = board g
      in case minimax b computerPlayer MIN_val MAX_val of (b1, move) \<Rightarrow> (g, slot move))"


section \<open>Classification of a board of nine cells\<close>

text \<open>
  On an array of nine cells the three loops of \<open>isGameOver\<close> visit the eight lines of
  \<open>winLines\<close>, in that order, and every read is inside the array.
\<close>

definition line3 :: "cell \<Rightarrow> cell \<Rightarrow> cell \<Rightarrow> bool" where
  "line3 x y z = (y = x \<and> z = x \<and> x \<noteq> '''')"

definition winLines :: "nat list list" where
  "winLines = [[0, 1, 2], [3, 4, 5], [6, 7, 8], [0, 3, 6], [1, 4, 7], [2, 5, 8], [0, 4, 8], [2, 4, 6]]"

lemma upt_3: "[0..<3] = [0, 1, 2]"
  by (simp add: upt_rec)

lemma length9E:
  assumes "length (b :: 'a list) = 9"
  obtains a0 a1 a2 a3 a4 a5 a6 a7 a8 where "b = [a0, a1, a2, a3, a4, a5, a6, a7, a8]"
  using assms by (auto simp: eval_nat_numeral length_Suc_conv)

lemma lines_nine:
  "length b = 9 \<Longrightarrow> rowLines b @ colLines @ diagLines = winLines"
  by (simp add: rowLines_def colLines_def diagLines_def winLines_def upt_3)

lemma lineWon_nine:
  "lineWon [a0, a1, a2, a3, a4, a5, a6, a7, a8] [i, j, k] =
     (if i < 9 \<and> j < 9 \<and> k < 9 then
        line3 ([a0, a1, a2, a3, a4, a5, a6, a7, a8] ! i) ([a0, a1, a2, a3, a4, a5, a6, a7, a8] ! j)
          ([a0, a1, a2, a3, a4, a5, a6, a7, a8] ! k)
      else lineWon [a0, a1, a2, a3, a4, a5, a6, a7, a8] [i, j, k])"
  by (auto simp: lineWon_def cellAt_def line3_def)

lemma isGameOver_nine:
  "isGameOver [a0, a1, a2, a3, a4, a5, a6, a7, a8] =
     (if line3 a0 a1 a2 then WIN (Some a0) [0, 1, 2]
      else if line3 a3 a4 a5 then WIN (Some a3) [3, 4, 5]
      else if line3 a6 a7 a8 then WIN (Some a6) [6, 7, 8]
      else if line3 a0 a3 a6 then WIN (Some a0) [0, 3, 6]
      else if line3 a1 a4 a7 then WIN (Some a1) [1, 4, 7]
      else if line3 a2 a5 a8 then WIN (Some a2) [2, 5, 8]
      else if line3 a0 a4 a8 then WIN (Some a0) [0, 4, 8]
      else if line3 a2 a4 a6 then WIN (Some a2) [2, 4, 6]
      else if getAvailableSlots [a0, a1, a2, a3, a4, a5, a6, a7, a8] = [] then TIE
      else CONTINUE (getAvailableSlots [a0, a1, a2, a3, a4, a5, a6, a7, a8]))"
  by (simp add: isGameOver_def lines_nine winLines_def lineWon_nine cellAt_def Let_def)

lemma getAvailableSlots_nine:
  "getAvailableSlots [a0, a1, a2, a3, a4, a5, a6, a7, a8] =
     (if a0 = [] then [0] else []) @ (if a1 = [] then [1] else []) @ (if a2 = [] then [2] else [])
     @ (if a3 = [] then [3] else []) @ (if a4 = [] then [4] else []) @ (if a5 = [] then [5] else [])
     @ (if a6 = [] then [6] else []) @ (if a7 = [] then [7] else []) @ (if a8 = [] then [8] else [])"
  by (simp add: getAvailableSlots_def upt_rec)

lemma find_first:
  "k < length xs \<Longrightarrow> P (xs ! k) \<Longrightarrow> \<forall>j<k. \<not> P (xs ! j) \<Longrightarrow> find P xs = Some (xs ! k)"
proof (induction xs arbitrary: k)
  case Nil
  then show ?case by simp
next
  case (Cons x xs)
  show ?case
  proof (cases k)
    case 0
    with Cons.prems show ?thesis by simp
  next
    case (Suc n)
    with Cons.prems have "\<not> P x" by auto
    moreover have "find P xs = Some (xs ! n)"
      using Cons.prems Suc by (intro Cons.IH) auto
    ultimately show ?thesis using Suc by simp
  qed
qed

lemma winLines_shape:
  assumes "l \<in> set winLines"
  obtains i j k where "l = [i, j, k]" "i < 9" "j < 9" "k < 9"
  using assms unfolding winLines_def by auto

lemma lineWon_iff:
  assumes "length b = 9" "l \<in> set winLines"
  shows "lineWon b l \<longleftrightarrow> (b ! hd l \<noteq> '''' \<and> (\<forall>i\<in>set l. b ! i = b ! hd l))"
proof -
  from assms(2) obtain i j k where l: "l = [i, j, k]" "i < 9" "j < 9" "k < 9"
    by (rule winLines_shape)
  with assms(1) show ?thesis
    by (auto simp: lineWon_def cellAt_def)
qed

lemma filter_nth_upt: "length (filter (\<lambda>i. P (b ! i)) [0..<length b]) = length (filter P b)"
proof -
  have "filter P b = filter P (map (\<lambda>i. b ! i) [0..<length b])"
    by (simp add: map_nth)
  also have "length \<dots> = length (filter (\<lambda>i. P (b ! i)) [0..<length b])"
    by (simp add: filter_map comp_def)
  finally show ?thesis by simp
qed

section \<open>The board operations\<close>

text \<open>
  Claim C7. On every board of nine cells \<open>getAvailableSlots\<close> returns the indices of the
  empty cells, each once and in strictly ascending order, and the number of returned
  indices plus the number of non-empty cells is 9.
\<close>

theorem getAvailableSlots_ascending_count:
  assumes "length b = 9"
  shows "sorted_wrt (<) (getAvailableSlots b)
       \<and> set (getAvailableSlots b) = {i. i < 9 \<and> b ! i = ''''}
       \<and> length (getAvailableSlots b) + length (filter (\<lambda>c. c \<noteq> '''') b) = 9"
proof -
  have "sorted_wrt (<) (getAvailableSlots b)"
    unfolding getAvailableSlots_def by (rule sorted_wrt_filter) (rule sorted_wrt_upt)
  moreover have "set (getAvailableSlots b) = {i. i < 9 \<and> b ! i = ''''}"
    using assms by (auto simp: getAvailableSlots_def)
  moreover have "length (getAvailableSlots b) = length (filter (\<lambda>c. c = '''') b)"
    unfolding getAvailableSlots_def by (rule filter_nth_upt)
  then have "length (getAvailableSlots b) + length (filter (\<lambda>c. c \<noteq> '''') b) = 9"
    using sum_length_filter_compl [of "\<lambda>c. c = ''''" b] assms by simp
  ultimately show ?thesis by simp
qed

theorem getAvailableSlots_ascending_count_witness:
  "getAvailableSlots [''X'', '''', ''O'', '''', ''X'', '''', '''', ''O'', ''''] = [1, 3, 5, 6, 8]
   \<and> sorted_wrt (<) (getAvailableSlots [''X'', '''', ''O'', '''', ''X'', '''', '''', ''O'', ''''])
   \<and> length (getAvailableSlots [''X'', '''', ''O'', '''', ''X'', '''', '''', ''O'', ''''])
       + length (filter (\<lambda>c. c \<noteq> '''') [''X'', '''', ''O'', '''', ''X'', '''', '''', ''O'', '''']) = 9"
  using getAvailableSlots_ascending_count [of "[''X'', '''', ''O'', '''', ''X'', '''', '''', ''O'', '''']"]
  by (simp add: getAvailableSlots_nine)

text \<open>
  Claim C4. On a game whose board has nine cells, \<open>play\<close> fails with InvalidStateError
  whenever the game-over flag is set, fails with InvalidMoveError whenever the flag is
  not set and the slot is below 0, above 8 or occupied, and returns a result in every
  other case; in both failing cases the instance state (board and flag) after the call is
  the state before it.
\<close>

theorem play_failure_cases:
  assumes "length (board g) = 9"
  shows "(gameOver g \<longrightarrow> play g s p = (g, Inl InvalidStateError))
       \<and> (\<not> gameOver g \<and> (s < 0 \<or> 8 < s \<or> board g ! nat s \<noteq> '''') \<longrightarrow>
            play g s p = (g, Inl (InvalidMoveError s)))
       \<and> (\<not> gameOver g \<and> 0 \<le> s \<and> s \<le> 8 \<and> board g ! nat s = '''' \<longrightarrow>
            (\<exists>r. snd (play g s p) = Inr r))"
  using assms by (auto simp: play_def isValidSlot_def Let_def)

theorem play_failure_cases_witness:
  "play \<lparr>board = [''X'', ''X'', ''X'', ''O'', ''O'', '''', '''', '''', ''''], gameOver = True\<rparr> 5 ''O''
     = (\<lparr>board = [''X'', ''X'', ''X'', ''O'', ''O'', '''', '''', '''', ''''], gameOver = True\<rparr>,
        Inl InvalidStateError)
   \<and> play \<lparr>board = [''X'', '''', '''', '''', ''O'', '''', '''', '''', ''''], gameOver = False\<rparr> 9 ''X''
     = (\<lparr>board = [''X'', '''', '''', '''', ''O'', '''', '''', '''', ''''], gameOver = False\<rparr>,
        Inl (InvalidMoveError 9))
   \<and> play \<lparr>board = [''X'', '''', '''', '''', ''O'', '''', '''', '''', ''''], gameOver = False\<rparr> 4 ''X''
     = (\<lparr>board = [''X'', '''', '''', '''', ''O'', '''', '''', '''', ''''], gameOver = False\<rparr>,
        Inl (InvalidMoveError 4))
   \<and> snd (play \<lparr>board = [''X'', '''', '''', '''', ''O'', '''', '''', '''', ''''], gameOver = False\<rparr> 1 ''X'')
     = Inr (CONTINUE [2, 3, 5, 6, 7, 8])"
  using play_failure_cases
      [of "\<lparr>board = [''X'', ''X'', ''X'', ''O'', ''O'', '''', '''', '''', ''''], gameOver = True\<rparr>" 5 "''O''"]
    play_failure_cases
      [of "\<lparr>board = [''X'', '''', '''', '''', ''O'', '''', '''', '''', ''''], gameOver = False\<rparr>" 9 "''X''"]
    play_failure_cases
      [of "\<lparr>board = [''X'', '''', '''', '''', ''O'', '''', '''', '''', ''''], gameOver = False\<rparr>" 4 "''X''"]
  by (simp add: play_def isValidSlot_def isGameOver_nine line3_def getAvailableSlots_nine)

text \<open>
  Claim C5. When the game-over flag is not set, the slot is valid and the player's token
  is not the empty string, \<open>play\<close> succeeds, the cell of the slot was empty and now holds
  the token, and every other cell of the board is unchanged.
\<close>

theorem play_changes_one_cell:
  assumes "\<not> gameOver g" and "isValidSlot g s" and "p \<noteq> ''''"
  shows "snd (play g s p) = Inr (isGameOver ((board g)[nat s := p]))
       \<and> board (fst (play g s p)) = (board g)[nat s := p]
       \<and> board g ! nat s = '''' \<and> board (fst (play g s p)) ! nat s = p
       \<and> board (fst (play g s p)) ! nat s \<noteq> board g ! nat s
       \<and> length (board (fst (play g s p))) = length (board g)
       \<and> (\<forall>i. i \<noteq> nat s \<longrightarrow> board (fst (play g s p)) ! i = board g ! i)"
  using assms by (auto simp: play_def isValidSlot_def Let_def)

theorem play_changes_one_cell_witness:
  "\<not> gameOver initialize \<and> isValidSlot initialize 4
   \<and> board (fst (play initialize 4 ''O'')) = ['''', '''', '''', '''', ''O'', '''', '''', '''', '''']
   \<and> snd (play initialize 4 ''O'') = Inr (CONTINUE [0, 1, 2, 3, 5, 6, 7, 8])"
  using play_changes_one_cell [of initialize 4 "''O''"]
  by (simp add: initialize_def isValidSlot_def isGameOver_nine line3_def getAvailableSlots_nine)

text \<open>
  Claim C10, as amended. \<open>play\<close> does not look at the token: when the game-over flag is
  not set, for every valid slot and every token, the empty string and tokens other than
  the two players' included, \<open>play\<close> succeeds and the cell of the slot holds exactly the
  token afterwards; after playing the empty string the board is unchanged, the slot is
  still valid and still among the available slots.
\<close>

theorem play_any_token:
  assumes "\<not> gameOver g" and "isValidSlot g s"
  shows "snd (play g s p) = Inr (isGameOver ((board g)[nat s := p]))
       \<and> board (fst (play g s p)) = (board g)[nat s := p]
       \<and> board (fst (play g s p)) ! nat s = p
       \<and> (p = '''' \<longrightarrow> board (fst (play g s p)) = board g
                      \<and> isValidSlot (fst (play g s p)) s
                      \<and> nat s \<in> set (getAvailableSlots (board (fst (play g s p)))))"
  using assms
  by (auto simp: play_def isValidSlot_def Let_def getAvailableSlots_def list_update_same_conv)

theorem play_any_token_witness:
  "\<not> gameOver initialize \<and> isValidSlot initialize 4
   \<and> board (fst (play initialize 4 ''Z'')) = ['''', '''', '''', '''', ''Z'', '''', '''', '''', '''']
   \<and> board (fst (play initialize 4 '''')) = board initialize
   \<and> isValidSlot (fst (play initialize 4 '''')) 4
   \<and> getAvailableSlots (board (fst (play initialize 4 ''''))) = [0, 1, 2, 3, 4, 5, 6, 7, 8]"
  using play_any_token [of initialize 4 "''Z''"] play_any_token [of initialize 4 "''''"]
  by (simp add: initialize_def isValidSlot_def getAvailableSlots_nine)

text \<open>
  The claim as stated asks for success at every valid empty slot. After a win the flag is
  set while slots are still empty and valid, and \<open>play\<close> is refused there whatever the
  token.
\<close>

theorem play_any_token_counterexample:
  "isValidSlot \<lparr>board = [''X'', ''X'', ''X'', ''O'', ''O'', '''', '''', '''', ''''], gameOver = True\<rparr> 5
   \<and> play \<lparr>board = [''X'', ''X'', ''X'', ''O'', ''O'', '''', '''', '''', ''''], gameOver = True\<rparr> 5 ''O''
     = (\<lparr>board = [''X'', ''X'', ''X'', ''O'', ''O'', '''', '''', '''', ''''], gameOver = True\<rparr>,
        Inl InvalidStateError)"
  by (simp add: play_def isValidSlot_def)

section \<open>Win detection\<close>

text \<open>
  Claim C3, as amended. On a board of nine cells, when the three cells of the \<open>k\<close>-th of
  the eight lines (counted in the order rows, columns, diagonals) all hold the same
  non-empty token \<open>p\<close>, and none of the lines before it in that order is complete, the
  board is classified as a win of \<open>p\<close> with exactly that line, whatever the other cells hold.
\<close>

theorem isGameOver_first_complete_line:
  assumes "length b = 9" and "k < 8" and "p \<noteq> ''''"
    and "\<forall>i\<in>set (winLines ! k). b ! i = p"
    and "\<forall>j<k. \<not> lineWon b (winLines ! j)"
  shows "isGameOver b = WIN (Some p) (winLines ! k)"
proof -
  have len: "length winLines = 8" by (simp add: winLines_def)
  have mem: "winLines ! k \<in> set winLines" using assms(2) len by simp
  from mem obtain i j m where l: "winLines ! k = [i, j, m]" "i < 9" "j < 9" "m < 9"
    by (rule winLines_shape)
  have hd: "b ! hd (winLines ! k) = p" "hd (winLines ! k) < length b"
    using assms(1,4) l by simp_all
  have "lineWon b (winLines ! k)"
    using lineWon_iff [OF assms(1) mem] assms(3,4) hd by simp
  then have "find (lineWon b) winLines = Some (winLines ! k)"
    using assms(2,5) len by (intro find_first) simp_all
  then show ?thesis
    using hd by (simp add: isGameOver_def lines_nine [OF assms(1)] cellAt_def)
qed

theorem isGameOver_first_complete_line_witness:
  "winLines ! 1 = [3, 4, 5]
   \<and> isGameOver [''X'', ''X'', '''', ''O'', ''O'', ''O'', ''X'', '''', ''''] = WIN (Some ''O'') [3, 4, 5]"
proof -
  have 1: "winLines ! 1 = [3, 4, 5]" by (simp add: winLines_def)
  have 2: "\<forall>i\<in>set (winLines ! 1). [''X'', ''X'', '''', ''O'', ''O'', ''O'', ''X'', '''', ''''] ! i = ''O''"
    by (simp add: winLines_def)
  have 3: "\<forall>j<1. \<not> lineWon [''X'', ''X'', '''', ''O'', ''O'', ''O'', ''X'', '''', ''''] (winLines ! j)"
    by (simp add: winLines_def lineWon_nine line3_def)
  show ?thesis
    using isGameOver_first_complete_line
      [of "[''X'', ''X'', '''', ''O'', ''O'', ''O'', ''X'', '''', '''']" 1 "''O''", OF _ _ _ 2 3] 1
    by simp
qed

text \<open>
  The claim as stated lets the other six cells be arbitrary. With the top row held by X
  and the middle row held by O, the middle row is complete for O, and the board is
  classified as a win of X with the top row.
\<close>

theorem isGameOver_first_complete_line_counterexample:
  "[''X'', ''X'', ''X'', ''O'', ''O'', ''O'', '''', '''', ''''] ! 3 = ''O''
   \<and> [''X'', ''X'', ''X'', ''O'', ''O'', ''O'', '''', '''', ''''] ! 4 = ''O''
   \<and> [''X'', ''X'', ''X'', ''O'', ''O'', ''O'', '''', '''', ''''] ! 5 = ''O''
   \<and> isGameOver [''X'', ''X'', ''X'', ''O'', ''O'', ''O'', '''', '''', ''''] = WIN (Some ''X'') [0, 1, 2]
   \<and> isGameOver [''X'', ''X'', ''X'', ''O'', ''O'', ''O'', '''', '''', ''''] \<noteq> WIN (Some ''O'') [3, 4, 5]"
  by (simp add: isGameOver_nine line3_def)

text \<open>
  Claim C9. On every board of nine cells, whatever they hold, when \<open>isGameOver\<close> reports
  a win, the reported line is one of the eight lines, the reported player is a non-empty
  token and all three cells of the line hold it.
\<close>

theorem isGameOver_WIN_sound:
  assumes "length b = 9" and "isGameOver b = WIN w l"
  shows "l \<in> set winLines \<and> (\<exists>p. w = Some p \<and> p \<noteq> '''' \<and> (\<forall>i\<in>set l. b ! i = p))"
proof -
  from assms have f: "find (lineWon b) winLines = Some l" and w: "w = cellAt b (hd l)"
    by (auto simp: isGameOver_def lines_nine Let_def split: option.splits if_splits)
  from f have mem: "l \<in> set winLines" and won: "lineWon b l"
    by (auto simp: find_Some_iff)
  from mem obtain i j k where l: "l = [i, j, k]" "i < 9" "j < 9" "k < 9"
    by (rule winLines_shape)
  have "w = Some (b ! hd l)" using w l assms(1) by (simp add: cellAt_def)
  with lineWon_iff [OF assms(1) mem] won mem show ?thesis by simp
qed

theorem isGameOver_WIN_sound_witness:
  "isGameOver [''O'', ''X'', '''', ''X'', ''O'', '''', ''X'', '''', ''O''] = WIN (Some ''O'') [0, 4, 8]
   \<and> [0, 4, 8] \<in> set winLines
   \<and> [''O'', ''X'', '''', ''X'', ''O'', '''', ''X'', '''', ''O''] ! 0 = ''O''
   \<and> [''O'', ''X'', '''', ''X'', ''O'', '''', ''X'', '''', ''O''] ! 4 = ''O''
   \<and> [''O'', ''X'', '''', ''X'', ''O'', '''', ''X'', '''', ''O''] ! 8 = ''O''"
proof -
  have 1: "isGameOver [''O'', ''X'', '''', ''X'', ''O'', '''', ''X'', '''', ''O''] = WIN (Some ''O'') [0, 4, 8]"
    by (simp add: isGameOver_nine line3_def)
  show ?thesis
    using isGameOver_WIN_sound [OF _ 1] 1 by simp
qed


section \<open>The search as a function of the board\<close>

text \<open>
  \<open>ab\<close> is the search of \<open>minimax\<close> with the board left out of the result: the same
  cases, the same order of slots, the same comparisons and cuts. It is shown to be what
  \<open>minimax\<close> returns next to the board; the properties of the search are proved on it.
\<close>

function ab :: "board \<Rightarrow> string \<Rightarrow> int \<Rightarrow> int \<Rightarrow> move"
  and abLoop :: "nat list \<Rightarrow> board \<Rightarrow> string \<Rightarrow> int \<Rightarrow> int \<Rightarrow> move \<Rightarrow> int \<Rightarrow> move"
where
  "ab b player alpha beta =
     (case isGameOver b of
        WIN w line \<Rightarrow>
          \<lparr>slot = None, score = Some (if w = Some computerPlayer then WIN_SCORE else LOSE_SCORE)\<rparr>
      | TIE \<Rightarrow> \<lparr>slot = None, score = Some TIE_SCORE\<rparr>
      | CONTINUE slots \<Rightarrow>
          abLoop slots b player alpha beta \<lparr>slot = None, score = None\<rparr>
            (if player = computerPlayer then MIN_val else MAX_val))"
| "abLoop [] b player alpha beta bm bs = bm"
| "abLoop (s # rest) b player alpha beta bm bs =
     (if player = computerPlayer then
        (case score (ab (b[s := player]) humanPlayer alpha beta) of
           Some r \<Rightarrow>
             if r > bs then
               (if beta \<le> max alpha r then \<lparr>slot = Some s, score = Some r\<rparr>
                else abLoop rest b player (max alpha r) beta \<lparr>slot = Some s, score = Some r\<rparr> r)
             else
               (if beta \<le> max alpha bs then bm
                else abLoop rest b player (max alpha bs) beta bm bs)
         | None \<Rightarrow>
             (if beta \<le> max alpha bs then bm
              else abLoop rest b player (max alpha bs) beta bm bs))
      else
        (case score (ab (b[s := player]) computerPlayer alpha beta) of
           Some r \<Rightarrow>
             if r < bs then
               (if min beta r \<le> alpha then \<lparr>slot = Some s, score = Some r\<rparr>
                else abLoop rest b player alpha (min beta r) \<lparr>slot = Some s, score = Some r\<rparr> r)
             else
               (if min beta bs \<le> alpha then bm
                else abLoop rest b player alpha (min beta bs) bm bs)
         | None \<Rightarrow>
             (if min beta bs \<le> alpha then bm
              else abLoop rest b player alpha (min beta bs) bm bs)))"
  by pat_completeness auto
termination
  by (relation "inv_image (less_than <*lex*> less_than) searchMeasure")
    (simp_all add: searchMeasure_def measure_node measure_child measure_rest players_nonempty
       wf_lex_prod)

lemma minimax_ab:
  "minimax b p al be = (b, ab b p al be)"
  "set ss \<subseteq> emptyCells b \<Longrightarrow> minimax_loop ss b p al be bm bs = (b, abLoop ss b p al be bm bs)"
proof (induction b p al be and ss b p al be bm bs rule: minimax_minimax_loop.induct)
  case (1 b player alpha beta)
  show ?case
  proof (cases "isGameOver b")
    case (CONTINUE ss)
    have "set ss \<subseteq> emptyCells b"
      using isGameOver_CONTINUE_slots [OF CONTINUE] by simp
    with "1.IH" [OF CONTINUE] CONTINUE show ?thesis by simp
  qed simp_all
next
  case (2 b player alpha beta bestMove bestScore)
  show ?case by simp
next
  case (3 s rest b player alpha beta bestMove bestScore)
  have s: "s < length b" "b ! s = ''''" and rest: "set rest \<subseteq> emptyCells b"
    using "3.prems" by (auto simp: emptyCells_def)
  have restore: "b[s := q, s := ''''] = b" for q
    using s by (simp add: list_update_same_conv)
  show ?case
  proof (cases "player = computerPlayer")
    case True
    have m: "minimax (b[s := player]) humanPlayer alpha beta
               = (b[s := player], ab (b[s := player]) humanPlayer alpha beta)"
      using "3.IH"(1) [OF True] .
    show ?thesis
      using True m restore rest "3.IH"(2) [OF True m [symmetric]]
      by (auto simp: Let_def split: option.splits)
  next
    case False
    have m: "minimax (b[s := player]) computerPlayer alpha beta
               = (b[s := player], ab (b[s := player]) computerPlayer alpha beta)"
      using "3.IH"(3) [OF False] .
    show ?thesis
      using False m restore rest "3.IH"(4) [OF False m [symmetric]]
      by (auto simp: Let_def split: option.splits)
  qed
qed


section \<open>What the search returns\<close>

text \<open>
  Every call of the search returns a score between \<open>LOSE_SCORE\<close> and \<open>WIN_SCORE\<close>, and on
  a board that is not finished it returns one of the available slots with it.
\<close>

definition goodMove :: "nat set \<Rightarrow> move \<Rightarrow> int \<Rightarrow> bool" where
  "goodMove S m bs = (\<exists>s. m = \<lparr>slot = Some s, score = Some bs\<rparr> \<and> s \<in> S \<and> - 10 \<le> bs \<and> bs \<le> 10)"

lemma scores: "MIN_val = - 1000" "MAX_val = 1000" "WIN_SCORE = 10" "TIE_SCORE = 0" "LOSE_SCORE = - 10"
  by (simp_all add: MIN_val_def MAX_val_def WIN_SCORE_def TIE_SCORE_def LOSE_SCORE_def)

lemma ab_result:
  "(\<exists>r. score (ab b p al be) = Some r \<and> - 10 \<le> r \<and> r \<le> 10)
   \<and> (\<forall>ss. isGameOver b = CONTINUE ss \<longrightarrow> (\<exists>s\<in>set ss. slot (ab b p al be) = Some s))"
  "\<forall>S. goodMove S bm bs \<or> (ss \<noteq> [] \<and> bs = (if p = computerPlayer then MIN_val else MAX_val))
     \<longrightarrow> (\<exists>bs'. goodMove (S \<union> set ss) (abLoop ss b p al be bm bs) bs')"
proof (induction b p al be and ss b p al be bm bs rule: ab_abLoop.induct)
  case (1 b player alpha beta)
  show ?case
  proof (cases "isGameOver b")
    case (CONTINUE ss)
    have "ss \<noteq> []" using CONTINUE by (auto simp: isGameOver_def Let_def split: option.splits if_splits)
    with "1.IH" [OF CONTINUE] CONTINUE show ?thesis
      by (auto simp: goodMove_def)
  qed (simp_all add: scores)
next
  case (2 b player alpha beta bm bs)
  show ?case by auto
next
  case (3 s rest b player alpha beta bm bs)
  show ?case
  proof (cases "player = computerPlayer")
    case True
    from "3.IH"(1) [OF True] obtain r where
      r: "score (ab (b[s := player]) humanPlayer alpha beta) = Some r" "- 10 \<le> r" "r \<le> 10"
      by blast
    show ?thesis
    proof (intro allI impI)
      fix S
      assume a: "goodMove S bm bs \<or> (s # rest \<noteq> [] \<and> bs = (if player = computerPlayer then MIN_val else MAX_val))"
      show "\<exists>bs'. goodMove (S \<union> set (s # rest)) (abLoop (s # rest) b player alpha beta bm bs) bs'"
      proof (cases "r > bs")
        case True
        have g: "goodMove (insert s S) \<lparr>slot = Some s, score = Some r\<rparr> r"
          using r by (simp add: goodMove_def)
        show ?thesis
        proof (cases "beta \<le> max alpha r")
          case True
          with \<open>r > bs\<close> \<open>player = computerPlayer\<close> r show ?thesis
            by (auto simp: goodMove_def)
        next
          case False
          from "3.IH"(3) [OF \<open>player = computerPlayer\<close> r(1) \<open>r > bs\<close> False] g
          obtain bs' where "goodMove (insert s S \<union> set rest) (abLoop rest b player (max alpha r) beta \<lparr>slot = Some s, score = Some r\<rparr> r) bs'"
            by blast
          with False \<open>r > bs\<close> \<open>player = computerPlayer\<close> r show ?thesis
            by auto
        qed
      next
        case False
        then have nb: "\<not> bs < r" by simp
        from False a r True have g: "goodMove S bm bs" by (auto simp: scores)
        show ?thesis
        proof (cases "beta \<le> max alpha bs")
          case True
          with \<open>\<not> r > bs\<close> \<open>player = computerPlayer\<close> r g show ?thesis
            by (auto simp: goodMove_def)
        next
          case False
          from "3.IH"(4) [OF \<open>player = computerPlayer\<close> r(1) nb False] g
          obtain bs' where "goodMove (S \<union> set rest) (abLoop rest b player (max alpha bs) beta bm bs) bs'"
            by blast
          with False \<open>\<not> r > bs\<close> \<open>player = computerPlayer\<close> r show ?thesis
            by (auto simp: goodMove_def)
        qed
      qed
    qed
  next
    case False
    from "3.IH"(5) [OF False] obtain r where
      r: "score (ab (b[s := player]) computerPlayer alpha beta) = Some r" "- 10 \<le> r" "r \<le> 10"
      by blast
    show ?thesis
    proof (intro allI impI)
      fix S
      assume a: "goodMove S bm bs \<or> (s # rest \<noteq> [] \<and> bs = (if player = computerPlayer then MIN_val else MAX_val))"
      show "\<exists>bs'. goodMove (S \<union> set (s # rest)) (abLoop (s # rest) b player alpha beta bm bs) bs'"
      proof (cases "r < bs")
        case True
        have g: "goodMove (insert s S) \<lparr>slot = Some s, score = Some r\<rparr> r"
          using r by (simp add: goodMove_def)
        show ?thesis
        proof (cases "min beta r \<le> alpha")
          case True
          with \<open>r < bs\<close> \<open>player \<noteq> computerPlayer\<close> r show ?thesis
            by (auto simp: goodMove_def)
        next
          case False
          from "3.IH"(7) [OF \<open>player \<noteq> computerPlayer\<close> r(1) \<open>r < bs\<close> False] g
          obtain bs' where "goodMove (insert s S \<union> set rest) (abLoop rest b player alpha (min beta r) \<lparr>slot = Some s, score = Some r\<rparr> r) bs'"
            by blast
          with False \<open>r < bs\<close> \<open>player \<noteq> computerPlayer\<close> r show ?thesis
            by auto
        qed
      next
        case False
        with a r \<open>player \<noteq> computerPlayer\<close> have g: "goodMove S bm bs" by (auto simp: scores)
        show ?thesis
        proof (cases "min beta bs \<le> alpha")
          case True
          with \<open>\<not> r < bs\<close> \<open>player \<noteq> computerPlayer\<close> r g show ?thesis
            by (auto simp: goodMove_def)
        next
          case False
          from "3.IH"(8) [OF \<open>player \<noteq> computerPlayer\<close> r(1) \<open>\<not> r < bs\<close> False] g
          obtain bs' where "goodMove (S \<union> set rest) (abLoop rest b player alpha (min beta bs) bm bs) bs'"
            by blast
          with False \<open>\<not> r < bs\<close> \<open>player \<noteq> computerPlayer\<close> r show ?thesis
            by (auto simp: goodMove_def)
        qed
      qed
    qed
  qed
qed

section \<open>The unpruned reference search\<close>

text \<open>
  The reference search of the specification: the same recursion without \<open>alpha\<close> and
  \<open>beta\<close>, so that no slot is ever skipped. It visits the available slots in ascending
  order and replaces the best move only on a strictly better score, so the first of the
  best-scoring slots is kept.
\<close>

definition refMeasure ::
  "(board \<times> string) + (nat list \<times> board \<times> string \<times> move \<times> int) \<Rightarrow> nat \<times> nat" where
  "refMeasure x =
     (case x of
        Inl (b, p) \<Rightarrow> (nodeMeasure b p, 0)
      | Inr (ss, b, p, bm, bs) \<Rightarrow> (loopMeasure ss b p, length ss))"

function refMinimax :: "board \<Rightarrow> string \<Rightarrow> move"
  and refLoop :: "nat list \<Rightarrow> board \<Rightarrow> string \<Rightarrow> move \<Rightarrow> int \<Rightarrow> move"
where
  "refMinimax b player =
     (case isGameOver b of
        WIN w line \<Rightarrow>
          \<lparr>slot = None, score = Some (if w = Some computerPlayer then WIN_SCORE else LOSE_SCORE)\<rparr>
      | TIE \<Rightarrow> \<lparr>slot = None, score = Some TIE_SCORE\<rparr>
      | CONTINUE slots \<Rightarrow>
          refLoop slots b player \<lparr>slot = None, score = None\<rparr>
            (if player = computerPlayer then MIN_val else MAX_val))"
| "refLoop [] b player bm bs = bm"
| "refLoop (s # rest) b player bm bs =
     (if player = computerPlayer then
        (case score (refMinimax (b[s := player]) humanPlayer) of
           Some r \<Rightarrow>
             if r > bs then refLoop rest b player \<lparr>slot = Some s, score = Some r\<rparr> r
             else refLoop rest b player bm bs
         | None \<Rightarrow> refLoop rest b player bm bs)
      else
        (case score (refMinimax (b[s := player]) computerPlayer) of
           Some r \<Rightarrow>
             if r < bs then refLoop rest b player \<lparr>slot = Some s, score = Some r\<rparr> r
             else refLoop rest b player bm bs
         | None \<Rightarrow> refLoop rest b player bm bs))"
  by pat_completeness auto
termination
  by (relation "inv_image (less_than <*lex*> less_than) refMeasure")
    (simp_all add: refMeasure_def measure_node measure_child measure_rest players_nonempty
       wf_lex_prod)

lemma ref_result:
  "(\<exists>r. score (refMinimax b p) = Some r \<and> - 10 \<le> r \<and> r \<le> 10)
   \<and> (\<forall>ss. isGameOver b = CONTINUE ss \<longrightarrow> (\<exists>s\<in>set ss. slot (refMinimax b p) = Some s))"
  "\<forall>S. goodMove S bm bs \<or> (ss \<noteq> [] \<and> bs = (if p = computerPlayer then MIN_val else MAX_val))
     \<longrightarrow> (\<exists>bs'. goodMove (S \<union> set ss) (refLoop ss b p bm bs) bs'
              \<and> (goodMove S bm bs \<longrightarrow> (if p = computerPlayer then bs \<le> bs' else bs' \<le> bs)))"
proof (induction b p and ss b p bm bs rule: refMinimax_refLoop.induct)
  case (1 b player)
  show ?case
  proof (cases "isGameOver b")
    case (CONTINUE ss)
    have "ss \<noteq> []" using CONTINUE by (auto simp: isGameOver_def Let_def split: option.splits if_splits)
    with "1.IH" [OF CONTINUE] CONTINUE show ?thesis
      by (auto simp: goodMove_def)
  qed (simp_all add: scores)
next
  case (2 b player bm bs)
  show ?case by auto
next
  case (3 s rest b player bm bs)
  show ?case
  proof (cases "player = computerPlayer")
    case True
    from "3.IH"(1) [OF True] obtain r where
      r: "score (refMinimax (b[s := player]) humanPlayer) = Some r" "- 10 \<le> r" "r \<le> 10"
      by blast
    show ?thesis
    proof (intro allI impI)
      fix S
      assume a: "goodMove S bm bs \<or> (s # rest \<noteq> [] \<and> bs = (if player = computerPlayer then MIN_val else MAX_val))"
      show "\<exists>bs'. goodMove (S \<union> set (s # rest)) (refLoop (s # rest) b player bm bs) bs'
              \<and> (goodMove S bm bs \<longrightarrow> (if player = computerPlayer then bs \<le> bs' else bs' \<le> bs))"
      proof (cases "r > bs")
        case True
        have g: "goodMove (insert s S) \<lparr>slot = Some s, score = Some r\<rparr> r"
          using r by (simp add: goodMove_def)
        from "3.IH"(3) [OF \<open>player = computerPlayer\<close> r(1) True] g
        obtain bs' where "goodMove (insert s S \<union> set rest) (refLoop rest b player \<lparr>slot = Some s, score = Some r\<rparr> r) bs'"
          "r \<le> bs'"
          using \<open>player = computerPlayer\<close> by (metis (full_types))
        with True \<open>player = computerPlayer\<close> r show ?thesis
          by (intro exI [of _ bs']) auto
      next
        case False
        then have nb: "\<not> bs < r" by simp
        from False a r True have g: "goodMove S bm bs" by (auto simp: scores)
        from "3.IH"(4) [OF \<open>player = computerPlayer\<close> r(1) nb] g
        obtain bs' where "goodMove (S \<union> set rest) (refLoop rest b player bm bs) bs'" "bs \<le> bs'"
          using \<open>player = computerPlayer\<close> by (metis (full_types))
        with False \<open>player = computerPlayer\<close> r show ?thesis
          by (intro exI [of _ bs']) (auto simp: goodMove_def)
      qed
    qed
  next
    case False
    from "3.IH"(5) [OF False] obtain r where
      r: "score (refMinimax (b[s := player]) computerPlayer) = Some r" "- 10 \<le> r" "r \<le> 10"
      by blast
    show ?thesis
    proof (intro allI impI)
      fix S
      assume a: "goodMove S bm bs \<or> (s # rest \<noteq> [] \<and> bs = (if player = computerPlayer then MIN_val else MAX_val))"
      show "\<exists>bs'. goodMove (S \<union> set (s # rest)) (refLoop (s # rest) b player bm bs) bs'
              \<and> (goodMove S bm bs \<longrightarrow> (if player = computerPlayer then bs \<le> bs' else bs' \<le> bs))"
      proof (cases "r < bs")
        case True
        have g: "goodMove (insert s S) \<lparr>slot = Some s, score = Some r\<rparr> r"
          using r by (simp add: goodMove_def)
        from "3.IH"(7) [OF \<open>player \<noteq> computerPlayer\<close> r(1) True] g
        obtain bs' where "goodMove (insert s S \<union> set rest) (refLoop rest b player \<lparr>slot = Some s, score = Some r\<rparr> r) bs'"
          "bs' \<le> r"
          using \<open>player \<noteq> computerPlayer\<close> by (metis (full_types))
        with True \<open>player \<noteq> computerPlayer\<close> r show ?thesis
          by (intro exI [of _ bs']) auto
      next
        case False
        from False a r \<open>player \<noteq> computerPlayer\<close> have g: "goodMove S bm bs" by (auto simp: scores)
        from "3.IH"(8) [OF \<open>player \<noteq> computerPlayer\<close> r(1) False] g
        obtain bs' where "goodMove (S \<union> set rest) (refLoop rest b player bm bs) bs'" "bs' \<le> bs"
          using \<open>player \<noteq> computerPlayer\<close> by (metis (full_types))
        with False \<open>player \<noteq> computerPlayer\<close> r show ?thesis
          by (intro exI [of _ bs']) (auto simp: goodMove_def)
      qed
    qed
  qed
qed

section \<open>Pruning does not change the result\<close>

text \<open>
  \<open>windowRel al be v r\<close> relates the score \<open>v\<close> of the reference search to the score \<open>r\<close>
  the pruned search returns for the window \<open>(al, be)\<close>: inside the window they agree, and
  outside it \<open>r\<close> is on the same side of the window as \<open>v\<close>.
\<close>

definition windowRel :: "int \<Rightarrow> int \<Rightarrow> int \<Rightarrow> int \<Rightarrow> bool" where
  "windowRel al be v r = ((v \<le> al \<longrightarrow> r \<le> al) \<and> (be \<le> v \<longrightarrow> be \<le> r) \<and> (al < v \<and> v < be \<longrightarrow> r = v))"

lemma max_cut:
  assumes "windowRel al be vc rc" "al < be" "bs \<le> al" "bs' \<le> al"
    "be \<le> max al (max bs rc)" "max bs' vc \<le> v"
  shows "windowRel al be v (max bs rc) \<and> bs \<le> max bs rc \<and> bs' \<le> v"
  using assms by (auto simp: windowRel_def max_def min_def split: if_splits)

lemma max_pre:
  assumes "windowRel al be vc rc" "al < be" "bs \<le> al" "bs' \<le> al"
    "\<not> be \<le> max al (max bs rc)"
  shows "max al (max bs rc) < be \<and> max bs rc \<le> max al (max bs rc)
       \<and> max bs' vc \<le> max al (max bs rc)"
  using assms by (auto simp: windowRel_def max_def min_def split: if_splits)

lemma max_post:
  assumes "windowRel (max al (max bs rc)) be v r" "max bs rc \<le> r" "max bs' vc \<le> v"
    "windowRel al be vc rc" "al < be" "bs \<le> al" "bs' \<le> al"
  shows "windowRel al be v r \<and> bs \<le> r \<and> bs' \<le> v"
  using assms by (auto simp: windowRel_def max_def min_def split: if_splits)

lemma min_cut:
  assumes "windowRel al be vc rc" "al < be" "be \<le> bs" "be \<le> bs'"
    "min be (min bs rc) \<le> al" "v \<le> min bs' vc"
  shows "windowRel al be v (min bs rc) \<and> min bs rc \<le> bs \<and> v \<le> bs'"
  using assms by (auto simp: windowRel_def max_def min_def split: if_splits)

lemma min_pre:
  assumes "windowRel al be vc rc" "al < be" "be \<le> bs" "be \<le> bs'"
    "\<not> min be (min bs rc) \<le> al"
  shows "al < min be (min bs rc) \<and> min be (min bs rc) \<le> min bs rc
       \<and> min be (min bs rc) \<le> min bs' vc"
  using assms by (auto simp: windowRel_def max_def min_def split: if_splits)

lemma min_post:
  assumes "windowRel al (min be (min bs rc)) v r" "r \<le> min bs rc" "v \<le> min bs' vc"
    "windowRel al be vc rc" "al < be" "be \<le> bs" "be \<le> bs'"
  shows "windowRel al be v r \<and> r \<le> bs \<and> v \<le> bs'"
  using assms by (auto simp: windowRel_def max_def min_def split: if_splits)

definition loopState :: "nat list \<Rightarrow> string \<Rightarrow> move \<Rightarrow> int \<Rightarrow> bool" where
  "loopState ss p bm bs =
     ((\<exists>S. goodMove S bm bs) \<or> (ss \<noteq> [] \<and> bs = (if p = computerPlayer then MIN_val else MAX_val)))"

definition childOk :: "board \<Rightarrow> string \<Rightarrow> string \<Rightarrow> nat \<Rightarrow> bool" where
  "childOk b p q s =
     (\<forall>al be. MIN_val \<le> al \<and> al < be \<and> be \<le> MAX_val \<longrightarrow>
        (\<exists>v r. score (refMinimax (b[s := p]) q) = Some v
              \<and> score (ab (b[s := p]) q al be) = Some r
              \<and> windowRel al be v r \<and> - 10 \<le> v \<and> v \<le> 10 \<and> - 10 \<le> r \<and> r \<le> 10))"

lemma childOkD:
  assumes "childOk b p q s" "MIN_val \<le> al" "al < be" "be \<le> MAX_val"
  obtains v r where "score (refMinimax (b[s := p]) q) = Some v"
    "score (ab (b[s := p]) q al be) = Some r"
    "windowRel al be v r" "- 10 \<le> v" "v \<le> 10" "- 10 \<le> r" "r \<le> 10"
proof -
  from assms have "\<exists>v r. score (refMinimax (b[s := p]) q) = Some v
              \<and> score (ab (b[s := p]) q al be) = Some r
              \<and> windowRel al be v r \<and> - 10 \<le> v \<and> v \<le> 10 \<and> - 10 \<le> r \<and> r \<le> 10"
    unfolding childOk_def by blast
  then show ?thesis using that by blast
qed

lemma goodMove_score: "goodMove S bm bs \<Longrightarrow> score bm = Some bs \<and> - 10 \<le> bs \<and> bs \<le> 10"
  by (auto simp: goodMove_def)

lemma refLoop_final:
  assumes "loopState ss p bm bs"
  obtains v where "score (refLoop ss b p bm bs) = Some v" "- 10 \<le> v" "v \<le> 10"
    "(\<exists>S. goodMove S bm bs) \<longrightarrow> (if p = computerPlayer then bs \<le> v else v \<le> bs)"
proof (cases "\<exists>S. goodMove S bm bs")
  case True
  then obtain S where S: "goodMove S bm bs" by blast
  with ref_result(2) [of bm bs ss p b] obtain v where
    "goodMove (S \<union> set ss) (refLoop ss b p bm bs) v"
    "if p = computerPlayer then bs \<le> v else v \<le> bs"
    by blast
  then show ?thesis using that [of v] by (simp add: goodMove_score)
next
  case False
  with assms have i: "ss \<noteq> [] \<and> bs = (if p = computerPlayer then MIN_val else MAX_val)"
    by (simp add: loopState_def)
  with ref_result(2) [of bm bs ss p b] obtain v where
    "goodMove ({} \<union> set ss) (refLoop ss b p bm bs) v"
    by blast
  then show ?thesis using that [of v] False by (simp add: goodMove_score)
qed

lemma loopState_next_max:
  assumes "loopState (s # rest) computerPlayer bm bs" "- 10 \<le> rc" "rc \<le> 10"
  shows "goodMove (if rc > bs then {s} else {i. True})
           (if rc > bs then \<lparr>slot = Some s, score = Some rc\<rparr> else bm) (max bs rc)"
  using assms by (auto simp: loopState_def goodMove_def scores max_def)

lemma loopState_next_min:
  assumes "p \<noteq> computerPlayer" "loopState (s # rest) p bm bs" "- 10 \<le> rc" "rc \<le> 10"
  shows "goodMove (if rc < bs then {s} else {i. True})
           (if rc < bs then \<lparr>slot = Some s, score = Some rc\<rparr> else bm) (min bs rc)"
  using assms by (auto simp: loopState_def goodMove_def scores min_def)

lemma loopK_max:
  assumes "\<forall>s\<in>set ss. childOk b computerPlayer humanPlayer s"
    and "MIN_val \<le> al" "al < be" "be \<le> MAX_val" "bs \<le> al" "bs' \<le> al"
    and "loopState ss computerPlayer bm bs" "loopState ss computerPlayer bm' bs'"
  shows "\<exists>v r. score (refLoop ss b computerPlayer bm' bs') = Some v
             \<and> score (abLoop ss b computerPlayer al be bm bs) = Some r
             \<and> windowRel al be v r \<and> bs \<le> r \<and> bs' \<le> v"
  using assms
proof (induction ss arbitrary: al bm bs bm' bs')
  case Nil
  then show ?case
    by (auto simp: loopState_def goodMove_def windowRel_def)
next
  case (Cons s rest)
  from Cons.prems(1) have ch: "childOk b computerPlayer humanPlayer s"
    and chs: "\<forall>s\<in>set rest. childOk b computerPlayer humanPlayer s"
    by simp_all
  from ch Cons.prems(2-4) obtain vc rc where
    vc: "score (refMinimax (b[s := computerPlayer]) humanPlayer) = Some vc" "- 10 \<le> vc" "vc \<le> 10" and
    rc: "score (ab (b[s := computerPlayer]) humanPlayer al be) = Some rc" "- 10 \<le> rc" "rc \<le> 10" and
    k: "windowRel al be vc rc"
    by (rule childOkD)
  define bs1 where "bs1 = max bs rc"
  define bm1 where "bm1 = (if rc > bs then \<lparr>slot = Some s, score = Some rc\<rparr> else bm)"
  define bs1' where "bs1' = max bs' vc"
  define bm1' where "bm1' = (if vc > bs' then \<lparr>slot = Some s, score = Some vc\<rparr> else bm')"
  have abE: "abLoop (s # rest) b computerPlayer al be bm bs =
      (if be \<le> max al bs1 then bm1 else abLoop rest b computerPlayer (max al bs1) be bm1 bs1)"
    using rc(1) by (simp add: bs1_def bm1_def max_def)
  have refE: "refLoop (s # rest) b computerPlayer bm' bs' = refLoop rest b computerPlayer bm1' bs1'"
    using vc(1) by (simp add: bs1'_def bm1'_def max_def)
  have g1: "\<exists>S. goodMove S bm1 bs1"
    using loopState_next_max [OF Cons.prems(7) rc(2,3)] unfolding bm1_def bs1_def by blast
  have g1': "\<exists>S. goodMove S bm1' bs1'"
    using loopState_next_max [OF Cons.prems(8) vc(2,3)] unfolding bm1'_def bs1'_def by blast
  have st1: "loopState rest computerPlayer bm1 bs1" and st1': "loopState rest computerPlayer bm1' bs1'"
    using g1 g1' by (simp_all add: loopState_def)
  obtain v where
    v: "score (refLoop rest b computerPlayer bm1' bs1') = Some v" "bs1' \<le> v"
    using refLoop_final [OF st1', of b] g1' by auto
  have sc1: "score bm1 = Some bs1" using g1 by (auto simp: goodMove_def)
  show ?case
  proof (cases "be \<le> max al bs1")
    case True
    have "windowRel al be v bs1 \<and> bs \<le> bs1 \<and> bs' \<le> v"
      unfolding bs1_def
      by (rule max_cut [OF k Cons.prems(3,5,6) True [unfolded bs1_def] v(2) [unfolded bs1'_def]])
    with True abE refE v(1) sc1 show ?thesis by simp
  next
    case False
    have pre: "max al bs1 < be \<and> bs1 \<le> max al bs1 \<and> bs1' \<le> max al bs1"
      unfolding bs1_def bs1'_def
      by (rule max_pre [OF k Cons.prems(3,5,6) False [unfolded bs1_def]])
    have pre0: "MIN_val \<le> max al bs1" using Cons.prems(2) by simp
    from pre have p1: "max al bs1 < be" and p2: "bs1 \<le> max al bs1" and p3: "bs1' \<le> max al bs1"
      by simp_all
    from Cons.IH [OF chs pre0 p1 Cons.prems(4) p2 p3 st1 st1'] obtain v2 r where
      r: "score (refLoop rest b computerPlayer bm1' bs1') = Some v2"
         "score (abLoop rest b computerPlayer (max al bs1) be bm1 bs1) = Some r"
         "windowRel (max al bs1) be v2 r" "bs1 \<le> r" "bs1' \<le> v2"
      by blast
    have "windowRel al be v2 r \<and> bs \<le> r \<and> bs' \<le> v2"
      by (rule max_post [OF r(3) [unfolded bs1_def] r(4) [unfolded bs1_def] r(5) [unfolded bs1'_def]
            k Cons.prems(3,5,6)])
    with False abE refE r(1,2) show ?thesis by simp
  qed
qed

lemma loopK_min:
  assumes "p \<noteq> computerPlayer"
    and "\<forall>s\<in>set ss. childOk b p computerPlayer s"
    and "MIN_val \<le> al" "al < be" "be \<le> MAX_val" "be \<le> bs" "be \<le> bs'"
    and "loopState ss p bm bs" "loopState ss p bm' bs'"
  shows "\<exists>v r. score (refLoop ss b p bm' bs') = Some v
             \<and> score (abLoop ss b p al be bm bs) = Some r
             \<and> windowRel al be v r \<and> r \<le> bs \<and> v \<le> bs'"
  using assms
proof (induction ss arbitrary: be bm bs bm' bs')
  case Nil
  then show ?case
    by (auto simp: loopState_def goodMove_def windowRel_def)
next
  case (Cons s rest)
  note np = Cons.prems(1)
  from Cons.prems(2) have ch: "childOk b p computerPlayer s"
    and chs: "\<forall>s\<in>set rest. childOk b p computerPlayer s"
    by simp_all
  from ch Cons.prems(3-5) obtain vc rc where
    vc: "score (refMinimax (b[s := p]) computerPlayer) = Some vc" "- 10 \<le> vc" "vc \<le> 10" and
    rc: "score (ab (b[s := p]) computerPlayer al be) = Some rc" "- 10 \<le> rc" "rc \<le> 10" and
    k: "windowRel al be vc rc"
    by (rule childOkD)
  define bs1 where "bs1 = min bs rc"
  define bm1 where "bm1 = (if rc < bs then \<lparr>slot = Some s, score = Some rc\<rparr> else bm)"
  define bs1' where "bs1' = min bs' vc"
  define bm1' where "bm1' = (if vc < bs' then \<lparr>slot = Some s, score = Some vc\<rparr> else bm')"
  have abE: "abLoop (s # rest) b p al be bm bs =
      (if min be bs1 \<le> al then bm1 else abLoop rest b p al (min be bs1) bm1 bs1)"
    using rc(1) np by (simp add: bs1_def bm1_def min_def)
  have refE: "refLoop (s # rest) b p bm' bs' = refLoop rest b p bm1' bs1'"
    using vc(1) np by (simp add: bs1'_def bm1'_def min_def)
  have g1: "\<exists>S. goodMove S bm1 bs1"
    using loopState_next_min [OF np Cons.prems(8) rc(2,3)] unfolding bm1_def bs1_def by blast
  have g1': "\<exists>S. goodMove S bm1' bs1'"
    using loopState_next_min [OF np Cons.prems(9) vc(2,3)] unfolding bm1'_def bs1'_def by blast
  have st1: "loopState rest p bm1 bs1" and st1': "loopState rest p bm1' bs1'"
    using g1 g1' by (simp_all add: loopState_def)
  obtain v where
    v: "score (refLoop rest b p bm1' bs1') = Some v" "v \<le> bs1'"
    using refLoop_final [OF st1', of b] g1' np by auto
  have sc1: "score bm1 = Some bs1" using g1 by (auto simp: goodMove_def)
  show ?case
  proof (cases "min be bs1 \<le> al")
    case True
    have "windowRel al be v bs1 \<and> bs1 \<le> bs \<and> v \<le> bs'"
      unfolding bs1_def
      by (rule min_cut [OF k Cons.prems(4,6,7) True [unfolded bs1_def] v(2) [unfolded bs1'_def]])
    with True abE refE v(1) sc1 show ?thesis by simp
  next
    case False
    have pre: "al < min be bs1 \<and> min be bs1 \<le> bs1 \<and> min be bs1 \<le> bs1'"
      unfolding bs1_def bs1'_def
      by (rule min_pre [OF k Cons.prems(4,6,7) False [unfolded bs1_def]])
    have pre0: "min be bs1 \<le> MAX_val" using Cons.prems(5) by simp
    from pre have p1: "al < min be bs1" and p2: "min be bs1 \<le> bs1" and p3: "min be bs1 \<le> bs1'"
      by simp_all
    from Cons.IH [OF np chs Cons.prems(3) p1 pre0 p2 p3 st1 st1'] obtain v2 r where
      r: "score (refLoop rest b p bm1' bs1') = Some v2"
         "score (abLoop rest b p al (min be bs1) bm1 bs1) = Some r"
         "windowRel al (min be bs1) v2 r" "r \<le> bs1" "v2 \<le> bs1'"
      by blast
    have "windowRel al be v2 r \<and> r \<le> bs \<and> v2 \<le> bs'"
      by (rule min_post [OF r(3) [unfolded bs1_def] r(4) [unfolded bs1_def] r(5) [unfolded bs1'_def]
            k Cons.prems(4,6,7)])
    with False abE refE r(1,2) show ?thesis by simp
  qed
qed

lemma node_child_measure:
  assumes "s \<in> emptyCells b" "q \<noteq> ''''"
  shows "nodeMeasure (b[s := p]) q < nodeMeasure b p"
proof -
  have "emptyCells b \<union> set [s] = emptyCells b" using assms(1) by auto
  then have "loopMeasure [s] b p < nodeMeasure b p"
    by (simp add: loopMeasure_def nodeMeasure_def)
  with measure_child [OF assms(2), of b s p "[]"] show ?thesis by simp
qed

lemma isGameOver_CONTINUE_nonempty: "isGameOver b = CONTINUE ss \<Longrightarrow> ss \<noteq> []"
  by (auto simp: isGameOver_def Let_def split: option.splits if_splits)

lemma windowRel_refl: "windowRel al be v v"
  by (simp add: windowRel_def)

lemma ab_window:
  assumes "MIN_val \<le> al" "al < be" "be \<le> MAX_val"
  shows "\<exists>v r. score (refMinimax b p) = Some v \<and> score (ab b p al be) = Some r
               \<and> windowRel al be v r \<and> - 10 \<le> v \<and> v \<le> 10 \<and> - 10 \<le> r \<and> r \<le> 10"
  using assms
proof (induction "nodeMeasure b p" arbitrary: b p al be rule: less_induct)
  case less
  from ref_result(1) [of b p] obtain v where v: "score (refMinimax b p) = Some v" "- 10 \<le> v" "v \<le> 10"
    by blast
  from ab_result(1) [of b p al be] obtain r where r: "score (ab b p al be) = Some r" "- 10 \<le> r" "r \<le> 10"
    by blast
  have "windowRel al be v r"
  proof (cases "isGameOver b")
    case (WIN w line)
    with v(1) r(1) have "v = r" by simp
    then show ?thesis by (simp add: windowRel_refl)
  next
    case TIE
    with v(1) r(1) have "v = r" by simp
    then show ?thesis by (simp add: windowRel_refl)
  next
    case (CONTINUE ss)
    have ss: "set ss = emptyCells b" "ss \<noteq> []"
      using isGameOver_CONTINUE_slots [OF CONTINUE] isGameOver_CONTINUE_nonempty [OF CONTINUE]
      by simp_all
    show ?thesis
    proof (cases "p = computerPlayer")
      case True
      have ch: "\<forall>s\<in>set ss. childOk b computerPlayer humanPlayer s"
        unfolding childOk_def
      proof (intro ballI allI impI)
        fix s al' be'
        assume s: "s \<in> set ss" and w: "MIN_val \<le> al' \<and> al' < be' \<and> be' \<le> MAX_val"
        have "nodeMeasure (b[s := computerPlayer]) humanPlayer < nodeMeasure b p"
          using node_child_measure [of s b humanPlayer computerPlayer] s ss(1) True
          by (simp add: players_nonempty)
        from less.hyps [OF this, of al' be'] w
        show "\<exists>v r. score (refMinimax (b[s := computerPlayer]) humanPlayer) = Some v
              \<and> score (ab (b[s := computerPlayer]) humanPlayer al' be') = Some r
              \<and> windowRel al' be' v r \<and> - 10 \<le> v \<and> v \<le> 10 \<and> - 10 \<le> r \<and> r \<le> 10"
          by simp
      qed
      have st: "loopState ss computerPlayer \<lparr>slot = None, score = None\<rparr> MIN_val"
        using ss(2) by (simp add: loopState_def)
      from loopK_max [OF ch less.prems(1,2,3) less.prems(1) less.prems(1) st st]
      obtain v2 r2 where
        "score (refLoop ss b computerPlayer \<lparr>slot = None, score = None\<rparr> MIN_val) = Some v2"
        "score (abLoop ss b computerPlayer al be \<lparr>slot = None, score = None\<rparr> MIN_val) = Some r2"
        "windowRel al be v2 r2"
        by blast
      with v(1) r(1) CONTINUE True show ?thesis by simp
    next
      case False
      have ch: "\<forall>s\<in>set ss. childOk b p computerPlayer s"
        unfolding childOk_def
      proof (intro ballI allI impI)
        fix s al' be'
        assume s: "s \<in> set ss" and w: "MIN_val \<le> al' \<and> al' < be' \<and> be' \<le> MAX_val"
        have "nodeMeasure (b[s := p]) computerPlayer < nodeMeasure b p"
          using node_child_measure [of s b computerPlayer p] s ss(1)
          by (simp add: players_nonempty)
        from less.hyps [OF this, of al' be'] w
        show "\<exists>v r. score (refMinimax (b[s := p]) computerPlayer) = Some v
              \<and> score (ab (b[s := p]) computerPlayer al' be') = Some r
              \<and> windowRel al' be' v r \<and> - 10 \<le> v \<and> v \<le> 10 \<and> - 10 \<le> r \<and> r \<le> 10"
          by simp
      qed
      have st: "loopState ss p \<lparr>slot = None, score = None\<rparr> MAX_val"
        using ss(2) False by (simp add: loopState_def)
      from loopK_min [OF False ch less.prems(1,2,3) less.prems(3) less.prems(3) st st]
      obtain v2 r2 where
        "score (refLoop ss b p \<lparr>slot = None, score = None\<rparr> MAX_val) = Some v2"
        "score (abLoop ss b p al be \<lparr>slot = None, score = None\<rparr> MAX_val) = Some r2"
        "windowRel al be v2 r2"
        by blast
      with v(1) r(1) CONTINUE False show ?thesis by simp
    qed
  qed
  with v r show ?case by blast
qed

lemma childOk_all: "q \<noteq> '''' \<Longrightarrow> childOk b p q s"
  unfolding childOk_def using ab_window by blast

lemma root_max:
  assumes "MIN_val \<le> bs" "bs \<le> 10"
  shows "abLoop ss b computerPlayer bs MAX_val bm bs = refLoop ss b computerPlayer bm bs"
  using assms
proof (induction ss arbitrary: bm bs)
  case Nil
  show ?case by simp
next
  case (Cons s rest)
  have w: "bs < MAX_val" "MAX_val \<le> MAX_val" using Cons.prems(2) by (simp_all add: scores)
  from childOk_all [OF players_nonempty(1), of b computerPlayer s] Cons.prems(1) w obtain vc rc where
    vc: "score (refMinimax (b[s := computerPlayer]) humanPlayer) = Some vc" "- 10 \<le> vc" "vc \<le> 10" and
    rc: "score (ab (b[s := computerPlayer]) humanPlayer bs MAX_val) = Some rc" "- 10 \<le> rc" "rc \<le> 10" and
    k: "windowRel bs MAX_val vc rc"
    by (rule childOkD)
  show ?case
  proof (cases "rc > bs")
    case True
    with k vc(3) have e: "rc = vc" by (auto simp: windowRel_def scores)
    have "MIN_val \<le> rc" "rc \<le> 10" using rc(2,3) by (simp_all add: scores)
    from Cons.IH [OF this] True e vc(1) rc(1) rc(3) show ?thesis
      by (simp add: scores max_def)
  next
    case False
    with k vc(3) have e: "\<not> vc > bs" by (auto simp: windowRel_def scores)
    from Cons.IH [OF Cons.prems] False e vc(1) rc(1) Cons.prems(2) show ?thesis
      by (simp add: scores)
  qed
qed

lemma root_min:
  assumes "p \<noteq> computerPlayer" "- 10 \<le> bs" "bs \<le> MAX_val"
  shows "abLoop ss b p MIN_val bs bm bs = refLoop ss b p bm bs"
  using assms
proof (induction ss arbitrary: bm bs)
  case Nil
  show ?case by simp
next
  case (Cons s rest)
  note np = Cons.prems(1)
  have w: "MIN_val \<le> MIN_val" "MIN_val < bs" using Cons.prems(2) by (simp_all add: scores)
  from childOk_all [OF players_nonempty(2), of b p s] w Cons.prems(3) obtain vc rc where
    vc: "score (refMinimax (b[s := p]) computerPlayer) = Some vc" "- 10 \<le> vc" "vc \<le> 10" and
    rc: "score (ab (b[s := p]) computerPlayer MIN_val bs) = Some rc" "- 10 \<le> rc" "rc \<le> 10" and
    k: "windowRel MIN_val bs vc rc"
    by (rule childOkD)
  show ?case
  proof (cases "rc < bs")
    case True
    with k vc(2) have e: "rc = vc" by (auto simp: windowRel_def scores)
    have "- 10 \<le> rc" "rc \<le> MAX_val" using rc(2,3) by (simp_all add: scores)
    from Cons.IH [OF np this] True e vc(1) rc(1) rc(2) np show ?thesis
      by (simp add: scores min_def)
  next
    case False
    with k vc(2) have e: "\<not> vc < bs" by (auto simp: windowRel_def scores)
    from Cons.IH [OF Cons.prems] False e vc(1) rc(1) Cons.prems(2) np show ?thesis
      by (simp add: scores)
  qed
qed

lemma ab_root: "ab b p MIN_val MAX_val = refMinimax b p"
proof (cases "isGameOver b")
  case (CONTINUE ss)
  show ?thesis
  proof (cases "p = computerPlayer")
    case True
    with CONTINUE root_max [of MIN_val ss b "\<lparr>slot = None, score = None\<rparr>"] show ?thesis
      by (simp add: scores)
  next
    case False
    with CONTINUE root_min [of p MAX_val ss b "\<lparr>slot = None, score = None\<rparr>"] show ?thesis
      by (simp add: scores)
  qed
qed simp_all

section \<open>The claims about the search\<close>

text \<open>
  Claim C8. For every board, player and window, and so at every depth of the recursion
  and whether or not the loop is cut by pruning, \<open>minimax\<close> hands its board argument back
  cell by cell as it received it; so does the loop over slots that are empty in the board.
  \<open>getNextBestSlot\<close> leaves the instance state, board and flag, as it was.
\<close>

theorem minimax_restores_board:
  "fst (minimax b p al be) = b
   \<and> (set ss \<subseteq> emptyCells b \<longrightarrow> fst (minimax_loop ss b p al be bm bs) = b)
   \<and> fst (getNextBestSlot g) = g"
  by (simp add: minimax_ab getNextBestSlot_def del: minimax.simps minimax_loop.simps ab.simps)

theorem minimax_restores_board_witness:
  "fst (minimax [''X'', ''X'', '''', '''', ''O'', ''O'', '''', '''', ''''] ''X'' MIN_val MAX_val)
     = [''X'', ''X'', '''', '''', ''O'', ''O'', '''', '''', '''']
   \<and> set [2, 3] \<subseteq> emptyCells [''X'', ''X'', '''', '''', ''O'', ''O'', '''', '''', '''']
   \<and> fst (minimax_loop [2, 3] [''X'', ''X'', '''', '''', ''O'', ''O'', '''', '''', ''''] ''O'' 0 10
            \<lparr>slot = None, score = None\<rparr> MAX_val)
     = [''X'', ''X'', '''', '''', ''O'', ''O'', '''', '''', '''']
   \<and> fst (getNextBestSlot \<lparr>board = [''X'', ''X'', '''', '''', ''O'', ''O'', '''', '''', ''''], gameOver = False\<rparr>)
     = \<lparr>board = [''X'', ''X'', '''', '''', ''O'', ''O'', '''', '''', ''''], gameOver = False\<rparr>"
  using minimax_restores_board
    [of "[''X'', ''X'', '''', '''', ''O'', ''O'', '''', '''', '''']" "''X''" MIN_val MAX_val
        "[2, 3]" "\<lparr>slot = None, score = None\<rparr>" MAX_val
        "\<lparr>board = [''X'', ''X'', '''', '''', ''O'', ''O'', '''', '''', ''''], gameOver = False\<rparr>"]
    minimax_restores_board
    [of "[''X'', ''X'', '''', '''', ''O'', ''O'', '''', '''', '''']" "''O''" 0 10
        "[2, 3]" "\<lparr>slot = None, score = None\<rparr>" MAX_val
        "\<lparr>board = [''X'', ''X'', '''', '''', ''O'', ''O'', '''', '''', ''''], gameOver = False\<rparr>"]
  by (simp add: emptyCells_def del: minimax.simps minimax_loop.simps ab.simps)

text \<open>
  Claim C6. On every board that \<open>isGameOver\<close> classifies as CONTINUE, that is, a board
  that is not finished and so has an empty cell, \<open>getNextBestSlot\<close> returns a slot, and
  this slot is one of the available slots: it is inside the board and its cell is empty.
\<close>

theorem getNextBestSlot_empty_slot:
  assumes "isGameOver (board g) = CONTINUE ss"
  shows "\<exists>s. snd (getNextBestSlot g) = Some s \<and> s \<in> set ss
             \<and> s < length (board g) \<and> board g ! s = ''''"
proof -
  from ab_result(1) [of "board g" computerPlayer MIN_val MAX_val] assms
  obtain s where s: "s \<in> set ss" "slot (ab (board g) computerPlayer MIN_val MAX_val) = Some s"
    by blast
  from s(1) isGameOver_CONTINUE_slots [OF assms]
  have "s < length (board g)" "board g ! s = ''''"
    by (simp_all add: emptyCells_def)
  with s show ?thesis
    by (simp add: getNextBestSlot_def minimax_ab del: minimax.simps ab.simps)
qed

theorem getNextBestSlot_empty_slot_witness:
  "isGameOver [''X'', ''X'', ''O'', ''O'', ''O'', ''X'', ''X'', '''', ''''] = CONTINUE [7, 8]
   \<and> snd (getNextBestSlot
            \<lparr>board = [''X'', ''X'', ''O'', ''O'', ''O'', ''X'', ''X'', '''', ''''], gameOver = False\<rparr>)
       = Some 7
   \<and> [''X'', ''X'', ''O'', ''O'', ''O'', ''X'', ''X'', '''', ''''] ! 7 = ''''"
proof -
  have c: "isGameOver [''X'', ''X'', ''O'', ''O'', ''O'', ''X'', ''X'', '''', ''''] = CONTINUE [7, 8]"
    by (simp add: isGameOver_nine line3_def getAvailableSlots_nine)
  have e: "snd (getNextBestSlot
            \<lparr>board = [''X'', ''X'', ''O'', ''O'', ''O'', ''X'', ''X'', '''', ''''], gameOver = False\<rparr>)
       = Some 7"
    by code_simp
  show ?thesis
    using getNextBestSlot_empty_slot
      [of "\<lparr>board = [''X'', ''X'', ''O'', ''O'', ''O'', ''X'', ''X'', '''', ''''], gameOver = False\<rparr>"
          "[7, 8]"] c e
    by (simp del: minimax.simps)
qed

text \<open>
  Claim C2. For every board and every player to move, the reachable positions of the
  3x3 game among them, the search with pruning started with the window \<open>(MIN, MAX)\<close>
  returns the very move, slot and score, that the unpruned reference search returns,
  which keeps the first of the best-scoring slots; this holds in particular for the slot
  returned by \<open>getNextBestSlot\<close>.
\<close>

theorem minimax_agrees_with_unpruned:
  "snd (minimax b p MIN_val MAX_val) = refMinimax b p
   \<and> snd (getNextBestSlot g) = slot (refMinimax (board g) computerPlayer)"
  by (simp add: minimax_ab ab_root getNextBestSlot_def del: minimax.simps ab.simps refMinimax.simps)


end
